theory Spec2Isabelle
  imports Complex_Main "HOL-Library.Multiset"
begin

section \<open>Python values used by the orchestration core\<close>

text \<open>
  Python floats are compared only (never computed with) by the code modelled here, so a
  float is one of: not-a-number, minus infinity, a finite value, plus infinity. The
  comparison \<open>fgt a b\<close> is Python's \<open>a > b\<close>: false as soon as one side is NaN.
\<close>

datatype pyfloat = NaN | NegInf | Fin real | PosInf

fun fgt :: "pyfloat \<Rightarrow> pyfloat \<Rightarrow> bool" where
  "fgt NaN b = False"
| "fgt a NaN = False"
| "fgt NegInf b = False"
| "fgt a NegInf = True"
| "fgt PosInf PosInf = False"
| "fgt PosInf (Fin y) = True"
| "fgt (Fin x) PosInf = False"
| "fgt (Fin x) (Fin y) = (y < x)"

text \<open>Python's \<open>a >= b\<close> on floats.\<close>

fun fge :: "pyfloat \<Rightarrow> pyfloat \<Rightarrow> bool" where
  "fge NaN b = False"
| "fge a NaN = False"
| "fge a b = (a = b \<or> fgt a b)"

text \<open>Python's builtin \<open>max(a, b)\<close>: the first argument stays unless the second is greater.\<close>

definition py_max :: "pyfloat \<Rightarrow> pyfloat \<Rightarrow> pyfloat" where
  "py_max a b = (if fgt b a then b else a)"

text \<open>An element of the Learner's \<open>logging_tuple\<close>: a number, a string, or anything else.\<close>

datatype logv = LNum pyfloat | LStr string | LOther

section \<open>Evaluator (evaluator.py)\<close>

text \<open>
  The fields of class \<open>Evaluator\<close> that \<open>evaluate_and_save\<close> reads or writes.
  \<open>agent_id\<close>, \<open>start_time\<close> and the tensorboard writer only feed printing and
  logging and are left out.
\<close>

type_synonym record_row = "int \<times> pyfloat \<times> pyfloat \<times> pyfloat \<times> logv list"

record evaluator =
  cwd :: string
  total_step :: int
  eval_per_step :: int
  eval_step_counter :: int
  save_gap :: int
  save_counter :: int
  if_keep_save :: bool
  if_over_write :: bool
  recorder :: "record_row list"
  recorder_step :: int
  max_r :: pyfloat

text \<open>\<open>Evaluator.__init__\<close>: the configuration values are its parameters.\<close>

definition Evaluator_init :: "string \<Rightarrow> int \<Rightarrow> int \<Rightarrow> bool \<Rightarrow> bool \<Rightarrow> int \<Rightarrow> evaluator" where
  "Evaluator_init c per_step gap keep over rec_step =
     \<lparr>cwd = c, total_step = 0, eval_per_step = per_step, eval_step_counter = - per_step,
      save_gap = gap, save_counter = 0, if_keep_save = keep, if_over_write = over,
      recorder = [], recorder_step = rec_step, max_r = NegInf\<rparr>"

text \<open>
  What the external evaluation routine \<open>get_cumulative_rewards_and_step\<close> hands back, as
  far as \<open>evaluate_and_save\<close> distinguishes it: a missing, non-tensor, low-rank or empty
  result (\<open>Malformed\<close>), a tensor whose column access raises IndexError (\<open>IndexErr\<close>), or a
  tensor with the statistics \<open>avg_r, std_r, avg_s, std_s\<close> taken from it.
\<close>

datatype eval_result = Malformed | IndexErr | Stats pyfloat pyfloat pyfloat pyfloat

text \<open>The name of a checkpoint file below \<open>cwd\<close>, before formatting.\<close>

datatype ckpt_name = ActorPt | ActorStepMax int pyfloat | ActorStep int

text \<open>
  The externally visible actions of one call, in program order: the evaluation episodes
  are run, the learning curve is drawn, a checkpoint is written. \<open>SaveBest\<close> is the
  write on the improvement path (\<open>if if_save\<close>), \<open>SavePeriodic\<close> the one on the
  \<open>save_gap\<close> path.
\<close>

datatype event = EvalEpisodes | SaveCurve | SaveBest string ckpt_name | SavePeriodic string ckpt_name

definition stats_of :: "eval_result \<Rightarrow> pyfloat \<times> pyfloat \<times> pyfloat \<times> pyfloat" where
  "stats_of res =
     (case res of
        Malformed \<Rightarrow> (NegInf, Fin 0, Fin 0, Fin 0)
      | IndexErr \<Rightarrow> (NegInf, Fin 0, Fin 0, Fin 0)
      | Stats a s al sl \<Rightarrow> (a, s, al, sl))"

fun is_num :: "logv \<Rightarrow> bool" where
  "is_num (LNum x) = True"
| "is_num v = False"

fun is_str :: "logv \<Rightarrow> bool" where
  "is_str (LStr s) = True"
| "is_str v = False"

definition value_tuple_of :: "logv list \<Rightarrow> logv list" where
  "value_tuple_of logging_tuple =
     (if logging_tuple = [] then []
      else filter is_num (butlast logging_tuple) @
           (if is_str (last logging_tuple) then [] else [last logging_tuple]))"

text \<open>\<open>self.recorder and self.recorder[-1][1] > -np.inf\<close>\<close>

definition recorder_valid :: "record_row list \<Rightarrow> bool" where
  "recorder_valid r = (r \<noteq> [] \<and> fgt (fst (snd (last r))) NegInf)"

definition curve_events :: "record_row list \<Rightarrow> event list" where
  "curve_events r = (if recorder_valid r then [SaveCurve] else [])"

text \<open>
  \<open>Evaluator.evaluate_and_save\<close>. The outcome \<open>res\<close> of the evaluation routine and
  whether \<open>th.save\<close> succeeds (\<open>save_ok\<close>; its exception is caught) are inputs. The
  result is the updated evaluator and the actions performed.
\<close>

definition evaluate_and_save ::
  "evaluator \<Rightarrow> eval_result \<Rightarrow> bool \<Rightarrow> int \<Rightarrow> pyfloat \<Rightarrow> logv list \<Rightarrow> evaluator \<times> event list" where
  "evaluate_and_save self0 res save_ok steps exp_r logging_tuple =
    (let self1 = self0\<lparr>total_step := total_step self0 + steps\<rparr> in
     if total_step self1 < recorder_step self1 then (self1, [])
     else if total_step self1 < eval_step_counter self1 + eval_per_step self1 then (self1, [])
     else
      (let self2 = self1\<lparr>eval_step_counter := total_step self1\<rparr>;
           (avg_r, std_r, avg_s, std_s) = stats_of res;
           value_tuple = value_tuple_of logging_tuple;
           self3 = (if fgt avg_r NegInf
                    then self2\<lparr>recorder := recorder self2 @
                                   [(total_step self2, avg_r, std_r, exp_r, value_tuple)]\<rparr>
                    else self2);
           prev_max_r = max_r self3;
           self4 = (if fgt avg_r NegInf then self3\<lparr>max_r := py_max (max_r self3) avg_r\<rparr>
                    else self3);
           if_save = (fgt avg_r NegInf \<and> fgt avg_r prev_max_r);
           ev1 = [EvalEpisodes] @ (if if_save then curve_events (recorder self4) else [])
       in
       if \<not> if_keep_save self4 then (self4, ev1)
       else
        (let self5 = self4\<lparr>save_counter := save_counter self4 + 1\<rparr> in
         if if_save then
           (self5,
            ev1 @ [SaveBest (cwd self5)
                     (if \<not> if_over_write self5
                      then ActorStepMax (total_step self5) (max_r self5) else ActorPt)]
                @ (if save_ok then curve_events (recorder self5) else []))
         else if save_counter self5 \<ge> save_gap self5 then
           (let self6 = self5\<lparr>save_counter := 0\<rparr> in
            (self6,
             ev1 @ [SavePeriodic (cwd self6)
                      (if \<not> if_over_write self6 then ActorStep (total_step self6) else ActorPt)]
                 @ (if save_ok then curve_events (recorder self6) else [])))
         else (self5, ev1))))"

section \<open>The Evaluator process and the continue flag (run.py)\<close>

text \<open>
  One message from the Learner: \<open>(actor, steps, exp_r, logging_tuple)\<close>; the actor is
  \<open>None\<close> when the Learner only advances the step counter.
\<close>

type_synonym 'act eval_msg = "'act option \<times> int \<times> pyfloat \<times> logv list"

text \<open>
  What one cycle observes of the outside world: the outcome of the evaluation routine,
  whether the checkpoint write succeeds, and the paths that exist on the file system when
  \<open>os.path.exists\<close> is called.
\<close>

record world =
  eval_outcome :: eval_result
  save_succeeds :: bool
  files :: "string list"

definition path_exists :: "world \<Rightarrow> string \<Rightarrow> bool" where
  "path_exists w p = (p \<in> set (files w))"

definition stop_path :: "string \<Rightarrow> string" where
  "stop_path c = c @ ''/stop''"

text \<open>
  The body of the \<open>while if_train\<close> loop of \<open>EvaluatorProc.run\<close>, after the receive:
  the evaluator is updated, and the flag that is sent back is returned with the actions.
\<close>

definition evaluator_cycle ::
  "int \<Rightarrow> string \<Rightarrow> evaluator \<Rightarrow> 'act eval_msg \<Rightarrow> world \<Rightarrow> evaluator \<times> bool \<times> event list" where
  "evaluator_cycle break_step c ev m w =
    (case m of (actor, steps, exp_r, logging_tuple) \<Rightarrow>
      (let (ev', acts) =
             (case actor of
                None \<Rightarrow> (ev\<lparr>total_step := total_step ev + steps\<rparr>, [])
              | Some a \<Rightarrow> evaluate_and_save ev (eval_outcome w) (save_succeeds w)
                            steps exp_r logging_tuple);
           if_train = (total_step ev' \<le> break_step \<and> \<not> path_exists w (stop_path c))
       in (ev', if_train, acts)))"

text \<open>
  The loop of \<open>EvaluatorProc.run\<close> on the messages that arrive, each paired with the
  world of its cycle. The result is the evaluator, the flags sent in order, the actions
  of each cycle, and whether the loop was left (\<open>True\<close>) or is blocked in the receive
  because no message is left (\<open>False\<close>).
\<close>

fun evaluator_loop ::
  "int \<Rightarrow> string \<Rightarrow> evaluator \<Rightarrow> ('act eval_msg \<times> world) list
     \<Rightarrow> evaluator \<times> bool list \<times> event list list \<times> bool" where
  "evaluator_loop break_step c ev [] = (ev, [], [], False)"
| "evaluator_loop break_step c ev ((m, w) # rest) =
    (case evaluator_cycle break_step c ev m w of (ev', if_train, acts) \<Rightarrow>
       if if_train then
         (case evaluator_loop break_step c ev' rest of (ev'', flags, actss, left) \<Rightarrow>
            (ev'', if_train # flags, acts # actss, left))
       else (ev', [if_train], [acts], True))"


text \<open>
  The evaluators a run can reach: the one built by \<open>Evaluator.__init__\<close>, and from
  there by calls of \<open>evaluate_and_save\<close> (both loops) and by the bare step count of
  \<open>EvaluatorProc.run\<close> for a \<open>None\<close> actor. Nothing else in run.py writes to an
  evaluator.
\<close>

inductive in_run :: "evaluator \<Rightarrow> bool" where
  init: "in_run (Evaluator_init c per_step gap keep over rec_step)"
| eval: "in_run ev \<Longrightarrow> in_run (fst (evaluate_and_save ev res ok steps exp_r lt))"
| count: "in_run ev \<Longrightarrow> in_run (ev\<lparr>total_step := total_step ev + steps\<rparr>)"

section \<open>Worker (run.py)\<close>

text \<open>
  How the loop of \<open>Worker.run\<close> stands: blocked in the receive (\<open>Waiting\<close>), ended by
  an exception that \<open>explore_env\<close> raised (\<open>Raised\<close>; the loop catches nothing), or
  left, with the exit code of the process (\<open>Exited\<close>; \<open>run\<close> returns normally after the
  \<open>break\<close>, which is exit code 0).
\<close>

datatype worker_status = Waiting | Raised | Exited int

text \<open>
  The loop of \<open>Worker.run\<close> on the messages that arrive on its policy pipe, in order
  (\<open>None\<close> is the stop sentinel). The external \<open>agent.explore_env(env, horizon_len)\<close> is
  the parameter \<open>explore_env\<close>: from the state \<open>s\<close> of agent and environment and the
  received actor it yields the trajectory batch, \<open>agent.last_state\<close> and the next state,
  or \<open>None\<close> when it raises. The result is the list of messages sent to the Learner and
  the status.
\<close>

fun worker_loop ::
  "('s \<Rightarrow> 'act \<Rightarrow> nat \<Rightarrow> ('items \<times> 'ls \<times> 's) option) \<Rightarrow> nat \<Rightarrow> nat \<Rightarrow> 's \<Rightarrow> 'act option list
     \<Rightarrow> (nat \<times> 'items \<times> 'ls) list \<times> worker_status" where
  "worker_loop explore_env worker_id horizon_len s [] = ([], Waiting)"
| "worker_loop explore_env worker_id horizon_len s (None # rest) = ([], Exited 0)"
| "worker_loop explore_env worker_id horizon_len s (Some actor # rest) =
     (case explore_env s actor horizon_len of
        None \<Rightarrow> ([], Raised)
      | Some (buffer_items, last_state, s') \<Rightarrow>
          (case worker_loop explore_env worker_id horizon_len s' rest of
             (sent, status) \<Rightarrow> ((worker_id, buffer_items, last_state) # sent, status)))"

section \<open>Tensors\<close>

text \<open>
  A tensor is its shape and its elements, read by index list. The core never computes
  with the elements, it only moves them; the device and the element type of a tensor
  (and the conversion that an assignment between element types makes) are not modelled.
  An index list outside the shape reads no element of the tensor.
\<close>

record 'a tensor =
  shape :: "nat list"
  elems :: "nat list \<Rightarrow> 'a"

definition zeros :: "nat list \<Rightarrow> ('a::zero) tensor" where
  "zeros s = \<lparr>shape = s, elems = (\<lambda>idx. 0)\<rparr>"

definition in_shape :: "nat list \<Rightarrow> nat list \<Rightarrow> bool" where
  "in_shape s idx = list_all2 (\<lambda>i n. i < n) idx s"

datatype pyerr = IndexError | ValueError | UnboundLocalError

text \<open>
  \<open>t[:, lo:hi].shape\<close>: a Python slice is clamped to the length of the dimension and
  is empty when it ends before it starts. A tensor of rank below 2 has no second
  dimension to slice.
\<close>

definition cols_shape :: "nat list \<Rightarrow> nat \<Rightarrow> nat \<Rightarrow> pyerr + nat list" where
  "cols_shape s lo hi =
     (case s of
        s0 # s1 # rest \<Rightarrow> Inr (s0 # (min hi s1 - min lo s1) # rest)
      | _ \<Rightarrow> Inl IndexError)"

text \<open>\<open>t[:, lo:hi]\<close> as a value (\<open>lo\<close> and \<open>hi\<close> already clamped).\<close>

definition slice_cols :: "'a tensor \<Rightarrow> nat \<Rightarrow> nat \<Rightarrow> pyerr + 'a tensor" where
  "slice_cols t lo hi =
     (case cols_shape (shape t) lo hi of
        Inl e \<Rightarrow> Inl e
      | Inr s \<Rightarrow> Inr \<lparr>shape = s,
                     elems = (\<lambda>idx. case idx of
                                h # c # r \<Rightarrow> elems t (h # (c + min lo (hd (tl (shape t)))) # r)
                              | _ \<Rightarrow> elems t idx)\<rparr>)"

text \<open>
  \<open>buffer_tensor[:, lo:hi] = buffer_item\<close> for an item of the shape of the slice: the
  columns from \<open>lo\<close> up to \<open>hi\<close> take the item's columns, everything else stays.
\<close>

definition assign_cols :: "'a tensor \<Rightarrow> nat \<Rightarrow> nat \<Rightarrow> 'a tensor \<Rightarrow> 'a tensor" where
  "assign_cols buffer_tensor lo hi buffer_item =
     buffer_tensor\<lparr>elems :=
       (\<lambda>idx. case idx of
          h # c # r \<Rightarrow> if lo \<le> c \<and> c < hi then elems buffer_item (h # (c - lo) # r)
                       else elems buffer_tensor idx
        | _ \<Rightarrow> elems buffer_tensor idx)\<rparr>"

text \<open>
  \<open>buffer_tensor[:, lo:hi, ..., :min_dim] = buffer_item[..., :min_dim]\<close> on a tensor of
  rank 3 or more: only the entries whose last index is below \<open>min_dim\<close> are assigned.
\<close>

definition assign_cols_trunc :: "'a tensor \<Rightarrow> nat \<Rightarrow> nat \<Rightarrow> nat \<Rightarrow> 'a tensor \<Rightarrow> 'a tensor" where
  "assign_cols_trunc buffer_tensor lo hi min_dim buffer_item =
     buffer_tensor\<lparr>elems :=
       (\<lambda>idx. case idx of
          h # c # r \<Rightarrow> if lo \<le> c \<and> c < hi \<and> r \<noteq> [] \<and> last r < min_dim
                       then elems buffer_item (h # (c - lo) # r)
                       else elems buffer_tensor idx
        | _ \<Rightarrow> elems buffer_tensor idx)\<rparr>"

text \<open>
  The body of the loop over \<open>zip(buffer_items, buffer_items_tensor)\<close> of \<open>Learner.run\<close>,
  the same in the worker receive and in the learner exchange: equal shapes are
  assigned; equal rank and equal shape up to the last dimension is truncated to the
  smaller last dimension; any other item is skipped after a message is printed. In the
  truncating assignment the index has three entries besides the ellipsis, which a
  tensor of rank 2 rejects with IndexError.
\<close>

definition write_cols :: "'a tensor \<Rightarrow> nat \<Rightarrow> nat \<Rightarrow> 'a tensor \<Rightarrow> pyerr + 'a tensor" where
  "write_cols buffer_tensor buf_i buf_j buffer_item =
     (case cols_shape (shape buffer_tensor) buf_i buf_j of
        Inl e \<Rightarrow> Inl e
      | Inr target_shape \<Rightarrow>
         (let source_shape = shape buffer_item;
              lo = min buf_i (hd (tl (shape buffer_tensor)));
              hi = min buf_j (hd (tl (shape buffer_tensor)))
          in if source_shape = target_shape
             then Inr (assign_cols buffer_tensor lo hi buffer_item)
             else if length source_shape = length target_shape
                     \<and> butlast source_shape = butlast target_shape
             then (if length target_shape < 3 then Inl IndexError
                   else Inr (assign_cols_trunc buffer_tensor lo hi
                               (min (last source_shape) (last target_shape)) buffer_item))
             else Inr buffer_tensor))"

fun write_items :: "'a tensor list \<Rightarrow> 'a tensor list \<Rightarrow> nat \<Rightarrow> nat \<Rightarrow> pyerr + 'a tensor list" where
  "write_items [] tensors buf_i buf_j = Inr tensors"
| "write_items (buffer_item # items) [] buf_i buf_j = Inr []"
| "write_items (buffer_item # items) (buffer_tensor # tensors) buf_i buf_j =
     (case write_cols buffer_tensor buf_i buf_j buffer_item of
        Inl e \<Rightarrow> Inl e
      | Inr t \<Rightarrow>
         (case write_items items tensors buf_i buf_j of
            Inl e \<Rightarrow> Inl e
          | Inr ts \<Rightarrow> Inr (t # ts)))"

text \<open>
  The same three branches for \<open>agent.last_state[buf_i:buf_j]\<close>, which is sliced along
  its first dimension.
\<close>

definition rows_shape :: "nat list \<Rightarrow> nat \<Rightarrow> nat \<Rightarrow> pyerr + nat list" where
  "rows_shape s lo hi =
     (case s of
        s0 # rest \<Rightarrow> Inr ((min hi s0 - min lo s0) # rest)
      | _ \<Rightarrow> Inl IndexError)"

definition assign_rows :: "'a tensor \<Rightarrow> nat \<Rightarrow> nat \<Rightarrow> 'a tensor \<Rightarrow> 'a tensor" where
  "assign_rows t lo hi x =
     t\<lparr>elems :=
       (\<lambda>idx. case idx of
          c # r \<Rightarrow> if lo \<le> c \<and> c < hi then elems x ((c - lo) # r) else elems t idx
        | _ \<Rightarrow> elems t idx)\<rparr>"

definition assign_rows_trunc :: "'a tensor \<Rightarrow> nat \<Rightarrow> nat \<Rightarrow> nat \<Rightarrow> 'a tensor \<Rightarrow> 'a tensor" where
  "assign_rows_trunc t lo hi min_dim x =
     t\<lparr>elems :=
       (\<lambda>idx. case idx of
          c # r \<Rightarrow> if lo \<le> c \<and> c < hi \<and> r \<noteq> [] \<and> last r < min_dim
                   then elems x ((c - lo) # r) else elems t idx
        | _ \<Rightarrow> elems t idx)\<rparr>"

definition write_rows :: "'a tensor \<Rightarrow> nat \<Rightarrow> nat \<Rightarrow> 'a tensor \<Rightarrow> pyerr + 'a tensor" where
  "write_rows t buf_i buf_j x =
     (case rows_shape (shape t) buf_i buf_j of
        Inl e \<Rightarrow> Inl e
      | Inr target_shape \<Rightarrow>
         (let source_shape = shape x;
              lo = min buf_i (hd (shape t));
              hi = min buf_j (hd (shape t))
          in if source_shape = target_shape
             then Inr (assign_rows t lo hi x)
             else if length source_shape = length target_shape
                     \<and> butlast source_shape = butlast target_shape
             then (if length target_shape < 2 then Inl IndexError
                   else Inr (assign_rows_trunc t lo hi
                               (min (last source_shape) (last target_shape)) x))
             else Inr t))"

section \<open>Learner (run.py)\<close>

text \<open>The fields of \<open>Config\<close> that the round logic of \<open>Learner.run\<close> reads.\<close>

record config =
  num_workers :: nat
  num_envs :: nat
  horizon_len :: nat
  state_dim :: nat
  action_dim :: nat
  if_discrete :: bool
  if_off_policy :: bool
  learner_gpu_ids :: "int list"
  gpu_id :: int

definition num_learners :: "config \<Rightarrow> nat" where
  "num_learners args = max 1 (length (learner_gpu_ids args))"

definition num_communications :: "config \<Rightarrow> nat" where
  "num_communications args = num_learners args - 1"

definition num_seqs :: "config \<Rightarrow> nat" where
  "num_seqs args = num_envs args * num_workers args * num_learners args"

text \<open>\<open>list.index\<close>, which raises ValueError when the value is absent.\<close>

fun py_index :: "'b list \<Rightarrow> 'b \<Rightarrow> pyerr + nat" where
  "py_index [] v = Inl ValueError"
| "py_index (x # xs) v =
     (if x = v then Inr 0 else (case py_index xs v of Inl e \<Rightarrow> Inl e | Inr n \<Rightarrow> Inr (Suc n)))"

definition learner_id :: "config \<Rightarrow> pyerr + nat" where
  "learner_id args =
     (if length (learner_gpu_ids args) > 0 then py_index (learner_gpu_ids args) (gpu_id args)
      else Inr 0)"

text \<open>
  The state the round loop works on: the tuple \<open>buffer_items_tensor\<close> and
  \<open>agent.last_state\<close>.
\<close>

record 'a learner_state =
  buffer_items_tensor :: "'a tensor list"
  agent_last_state :: "'a tensor"

text \<open>
  The buffers as \<open>Learner.run\<close> allocates them before the loop. \<open>agent.last_state\<close> is
  \<open>th.empty\<close>, whose contents are whatever the memory held: the parameter \<open>junk\<close>.
\<close>

definition learner_init :: "config \<Rightarrow> (nat list \<Rightarrow> 'a) \<Rightarrow> ('a::zero) learner_state" where
  "learner_init args junk =
    (let states = zeros [horizon_len args, num_seqs args, state_dim args];
         actions = (if \<not> if_discrete args
                    then zeros [horizon_len args, num_seqs args, action_dim args]
                    else zeros [horizon_len args, num_seqs args]);
         rewards = zeros [horizon_len args, num_seqs args];
         undones = zeros [horizon_len args, num_seqs args];
         unmasks = zeros [horizon_len args, num_seqs args];
         logprobs = zeros [horizon_len args, num_seqs args]
     in \<lparr>buffer_items_tensor =
            (if if_off_policy args then [states, actions, rewards, undones, unmasks]
             else [states, actions, logprobs, rewards, undones, unmasks]),
         agent_last_state = \<lparr>shape = [num_seqs args, state_dim args], elems = junk\<rparr>\<rparr>)"

text \<open>A message of a Worker: \<open>(worker_id, buffer_items, last_state)\<close>.\<close>

type_synonym 'a worker_msg = "nat \<times> 'a tensor list \<times> 'a tensor"

text \<open>The body of the gather loop, after the receive.\<close>

definition recv_worker :: "nat \<Rightarrow> 'a learner_state \<Rightarrow> 'a worker_msg \<Rightarrow> pyerr + 'a learner_state" where
  "recv_worker n_envs st msg =
     (case msg of (worker_id, buffer_items, last_state) \<Rightarrow>
       (let buf_i = n_envs * worker_id;
            buf_j = n_envs * (worker_id + 1)
        in case write_items buffer_items (buffer_items_tensor st) buf_i buf_j of
             Inl e \<Rightarrow> Inl e
           | Inr ts \<Rightarrow>
              (case write_rows (agent_last_state st) buf_i buf_j last_state of
                 Inl e \<Rightarrow> Inl e
               | Inr ls \<Rightarrow> Inr \<lparr>buffer_items_tensor = ts, agent_last_state = ls\<rparr>)))"

text \<open>
  A step of a process either blocks in a receive on an empty pipe, ends the process with
  an exception, or returns.
\<close>

datatype 'r outcome = Blocks | Raises pyerr | Returns 'r

text \<open>
  \<open>for _ in range(num_workers): ... self.recv_pipe.recv() ...\<close> on the queue of the
  pipe that all Workers of this Learner send to; the rest of the queue is returned.
\<close>

fun gather ::
  "nat \<Rightarrow> nat \<Rightarrow> 'a learner_state \<Rightarrow> 'a worker_msg list
     \<Rightarrow> ('a learner_state \<times> 'a worker_msg list) outcome" where
  "gather 0 n_envs st pipe = Returns (st, pipe)"
| "gather (Suc n) n_envs st [] = Blocks"
| "gather (Suc n) n_envs st (msg # pipe) =
     (case recv_worker n_envs st msg of
        Inl e \<Rightarrow> Raises e
      | Inr st' \<Rightarrow> gather n n_envs st' pipe)"

text \<open>
  Two properties of shapes for stating what a well-formed round is: the item has the
  shape of a slice of \<open>n_cols\<close> columns of a buffer tensor of shape \<open>s\<close>, and a buffer
  tensor of shape \<open>s\<close> has at least \<open>n\<close> columns.
\<close>

definition item_fits :: "nat \<Rightarrow> nat list \<Rightarrow> 'a tensor \<Rightarrow> bool" where
  "item_fits n_cols s buffer_item =
     (case s of s0 # s1 # rest \<Rightarrow> shape buffer_item = s0 # n_cols # rest | _ \<Rightarrow> False)"

definition wide_enough :: "nat \<Rightarrow> nat list \<Rightarrow> bool" where
  "wide_enough n s = (case s of s0 # s1 # rest \<Rightarrow> n \<le> s1 | _ \<Rightarrow> False)"

section \<open>Exchange between the Learners (run.py)\<close>

text \<open>
  \<open>learners_pipe\<close> is one duplex pipe per Learner. Learner \<open>k\<close> sends on end 0 of
  pipe \<open>k\<close>, and every other Learner receives on end 1 of pipe \<open>k\<close>; the other direction
  is never used. A pipe is the queue of the messages sent and not yet received, each
  message a list of tensors.
\<close>

type_synonym 'a pipes = "'a tensor list list list"

text \<open>\<open>[t[:, :_buffer_len] for t in buffer_items_tensor]\<close>\<close>

fun slice_all :: "'a tensor list \<Rightarrow> nat \<Rightarrow> nat \<Rightarrow> pyerr + 'a tensor list" where
  "slice_all [] lo hi = Inr []"
| "slice_all (t # ts) lo hi =
     (case slice_cols t lo hi of
        Inl e \<Rightarrow> Inl e
      | Inr x \<Rightarrow> (case slice_all ts lo hi of Inl e \<Rightarrow> Inl e | Inr xs \<Rightarrow> Inr (x # xs)))"

text \<open>
  The send loop of Learner \<open>lid\<close>: \<open>num_communications\<close> copies of its first
  \<open>num_envs * num_workers\<close> columns go to its own pipe. With a single Learner the loop
  body never runs and \<open>learners_pipe\<close> is not indexed.
\<close>

definition comm_send :: "config \<Rightarrow> nat \<Rightarrow> 'a tensor list \<Rightarrow> 'a pipes \<Rightarrow> pyerr + 'a pipes" where
  "comm_send args lid tensors learners_pipe =
     (case slice_all tensors 0 (num_envs args * num_workers args) of
        Inl e \<Rightarrow> Inl e
      | Inr send \<Rightarrow>
          if num_communications args = 0 then Inr learners_pipe
          else if lid < length learners_pipe
          then Inr (learners_pipe[lid := learners_pipe ! lid
                                    @ replicate (num_communications args) send])
          else Inl IndexError)"

text \<open>One iteration of the receive loop of Learner \<open>lid\<close>, for \<open>shift_id\<close>.\<close>

definition comm_recv_step ::
  "config \<Rightarrow> nat \<Rightarrow> nat \<Rightarrow> 'a tensor list \<Rightarrow> 'a pipes \<Rightarrow> ('a tensor list \<times> 'a pipes) outcome" where
  "comm_recv_step args lid shift_id tensors learners_pipe =
     (let other_learner_id = (lid + shift_id + 1) mod num_learners args
      in if \<not> other_learner_id < length learners_pipe then Raises IndexError
         else
          (case learners_pipe ! other_learner_id of
             [] \<Rightarrow> Blocks
           | buffer_items_recv # queue \<Rightarrow>
              (let buf_i = num_envs args * num_workers args * (shift_id + 1);
                   buf_j = num_envs args * num_workers args * (shift_id + 2)
               in case write_items buffer_items_recv tensors buf_i buf_j of
                    Inl e \<Rightarrow> Raises e
                  | Inr ts \<Rightarrow> Returns (ts, learners_pipe[other_learner_id := queue]))))"



text \<open>
  All Learners in the exchange of one round. Learner \<open>i\<close> owns \<open>ring_tensors r ! i\<close>
  and stands at \<open>ring_pc r ! i\<close>: 0 before its send loop, \<open>s + 1\<close> before its receive
  for \<open>shift_id = s\<close>, and \<open>num_communications + 1\<close> when its exchange is over.
\<close>

record 'a ring =
  ring_pipes :: "'a pipes"
  ring_tensors :: "'a tensor list list"
  ring_pc :: "nat list"

text \<open>
  Learner \<open>lid\<close> runs until its next communication. A receive on an empty pipe blocks;
  a Learner whose exchange is over does nothing more here.
\<close>

definition ring_step :: "config \<Rightarrow> nat \<Rightarrow> 'a ring \<Rightarrow> 'a ring outcome" where
  "ring_step args lid r =
     (if \<not> lid < length (ring_pc r) then Returns r
      else if ring_pc r ! lid = 0 then
        (case comm_send args lid (ring_tensors r ! lid) (ring_pipes r) of
           Inl e \<Rightarrow> Raises e
         | Inr lp \<Rightarrow> Returns (r\<lparr>ring_pipes := lp, ring_pc := (ring_pc r)[lid := 1]\<rparr>))
      else if ring_pc r ! lid \<le> num_communications args then
        (case comm_recv_step args lid (ring_pc r ! lid - 1) (ring_tensors r ! lid)
                (ring_pipes r) of
           Blocks \<Rightarrow> Blocks
         | Raises e \<Rightarrow> Raises e
         | Returns (ts, lp) \<Rightarrow>
             Returns (r\<lparr>ring_pipes := lp, ring_tensors := (ring_tensors r)[lid := ts],
                       ring_pc := (ring_pc r)[lid := ring_pc r ! lid + 1]\<rparr>))
      else Returns r)"

text \<open>
  An interleaving of the Learners: the schedule names the Learner that runs next. A
  Learner that is scheduled while its receive blocks stays where it is, and the others
  go on; an exception ends the run.
\<close>

fun ring_run :: "config \<Rightarrow> nat list \<Rightarrow> 'a ring \<Rightarrow> pyerr + 'a ring" where
  "ring_run args [] r = Inr r"
| "ring_run args (lid # schedule) r =
     (case ring_step args lid r of
        Blocks \<Rightarrow> ring_run args schedule r
      | Raises e \<Rightarrow> Inl e
      | Returns r' \<Rightarrow> ring_run args schedule r')"


text \<open>
  The invariant of the exchange of one round, for stating and proving what it
  achieves. \<open>bufs ! i\<close> is the tuple of Learner \<open>i\<close> when the exchange starts. Every
  Learner keeps its shapes and its own first \<open>num_envs * num_workers\<close> columns; a
  Learner that has not sent yet has changed nothing; pipe \<open>k\<close> holds only copies of the
  first columns of \<open>bufs ! k\<close>; and a Learner that stands at \<open>pc\<close> holds, for every
  \<open>j\<close> from 1 below \<open>pc\<close>, in its \<open>j\<close>-th block of columns the first columns of
  \<open>bufs ! ((i + j) mod num_learners)\<close>.
\<close>

definition ring_inv :: "config \<Rightarrow> 'a tensor list list \<Rightarrow> 'a ring \<Rightarrow> bool" where
  "ring_inv args bufs r \<longleftrightarrow>
     length (ring_pipes r) = num_learners args
   \<and> length (ring_pc r) = num_learners args
   \<and> length (ring_tensors r) = num_learners args
   \<and> (\<forall>i < num_learners args. ring_pc r ! i \<le> num_learners args)
   \<and> (\<forall>i < num_learners args. map shape (ring_tensors r ! i) = map shape (bufs ! i))
   \<and> (\<forall>i < num_learners args. ring_pc r ! i = 0 \<longrightarrow> ring_tensors r ! i = bufs ! i)
   \<and> (\<forall>i < num_learners args. \<forall>k < length (bufs ! i). \<forall>h c x.
         c < num_envs args * num_workers args \<longrightarrow>
         elems (ring_tensors r ! i ! k) (h # c # x) = elems (bufs ! i ! k) (h # c # x))
   \<and> (\<forall>k < num_learners args. \<forall>m \<in> set (ring_pipes r ! k).
         slice_all (bufs ! k) 0 (num_envs args * num_workers args) = Inr m)
   \<and> (\<forall>i < num_learners args. \<forall>j. 0 < j \<and> j < ring_pc r ! i \<longrightarrow>
         (\<forall>k < length (bufs ! i). \<forall>h c x. c < num_envs args * num_workers args \<longrightarrow>
            elems (ring_tensors r ! i ! k) (h # (num_envs args * num_workers args * j + c) # x)
              = elems (bufs ! ((i + j) mod num_learners args) ! k) (h # c # x)))"



text \<open>
  What the exchange starts from: at least two Learners, one tuple per Learner, all of
  the same shapes (the Learners share the configuration), and every tensor with
  \<open>num_seqs\<close> columns at least.
\<close>

definition ring_setup :: "config \<Rightarrow> 'a tensor list list \<Rightarrow> bool" where
  "ring_setup args bufs \<longleftrightarrow>
     2 \<le> num_learners args
   \<and> length bufs = num_learners args
   \<and> (\<forall>i < num_learners args. map shape (bufs ! i) = map shape (bufs ! 0))
   \<and> (\<forall>s \<in> set (map shape (bufs ! 0)). wide_enough (num_seqs args) s)"

section \<open>Example values\<close>

text \<open>
  \<open>th.full\<close>: a tensor filled with one value. The example configuration is the
  scenario of two Workers with one environment each and horizon 4, off-policy, with a
  single Learner; \<open>example_batch i\<close> is a trajectory batch of Worker \<open>i\<close> for it.
\<close>

definition full :: "nat list \<Rightarrow> 'a \<Rightarrow> 'a tensor" where
  "full s v = \<lparr>shape = s, elems = (\<lambda>idx. v)\<rparr>"

definition example_args :: config where
  "example_args = \<lparr>num_workers = 2, num_envs = 1, horizon_len = 4, state_dim = 2, action_dim = 1,
           if_discrete = False, if_off_policy = True, learner_gpu_ids = [], gpu_id = 0\<rparr>"

definition example_batch :: "nat \<Rightarrow> int tensor list" where
  "example_batch i = [full [4, 1, 2] (int i + 5), full [4, 1, 1] (int i + 5), full [4, 1] (int i + 5),
              full [4, 1] (int i + 5), full [4, 1] (int i + 5)]"






section \<open>Properties of the Evaluator\<close>




text \<open>
  C4. In every execution of the Evaluator loop a false flag is the last flag sent: the
  loop is left right after it, so no later cycle of the run can send a true flag. The
  loop is left exactly when the last flag sent is false.
\<close>

theorem continue_flag_false_is_last:
  "evaluator_loop b c ev inputs = (ev', flags, actss, left) \<Longrightarrow>
     (\<forall>i < length flags. \<not> flags ! i \<longrightarrow> Suc i = length flags)
     \<and> (left \<longleftrightarrow> (flags \<noteq> [] \<and> \<not> last flags))
     \<and> length flags \<le> length inputs"
proof (induction inputs arbitrary: ev ev' flags actss left)
  case Nil
  then show ?case by simp
next
  case (Cons x rest)
  obtain m w where x: "x = (m, w)" by (cases x)
  obtain ev1 t acts where cyc: "evaluator_cycle b c ev m w = (ev1, t, acts)"
    by (cases "evaluator_cycle b c ev m w")
  show ?case
  proof (cases t)
    case False
    with Cons.prems x cyc show ?thesis by auto
  next
    case True
    obtain ev2 fl2 as2 l2 where rec: "evaluator_loop b c ev1 rest = (ev2, fl2, as2, l2)"
      by (cases "evaluator_loop b c ev1 rest")
    from Cons.prems x cyc True rec
    have eq: "flags = True # fl2" "left = l2" by auto
    from Cons.IH [OF rec] have ih:
      "\<forall>i < length fl2. \<not> fl2 ! i \<longrightarrow> Suc i = length fl2"
      "l2 \<longleftrightarrow> (fl2 \<noteq> [] \<and> \<not> last fl2)" "length fl2 \<le> length rest" by auto
    have "\<forall>i < length flags. \<not> flags ! i \<longrightarrow> Suc i = length flags"
    proof (intro allI impI)
      fix i assume "i < length flags" "\<not> flags ! i"
      then show "Suc i = length flags"
        using eq ih(1) by (cases i) auto
    qed
    moreover have "left \<longleftrightarrow> (flags \<noteq> [] \<and> \<not> last flags)"
      using eq ih(2) by auto
    moreover have "length flags \<le> length (x # rest)" using eq ih(3) by simp
    ultimately show ?thesis by blast
  qed
qed

text \<open>
  A run with step budget 15 and three messages of 10 steps each: the second flag is
  false, it is the last one, and the third message is never received.
\<close>

theorem continue_flag_false_is_last_witness:
  "evaluator_loop 15 ''run'' (Evaluator_init ''run'' 0 2 True False 0)
      [((None :: nat option, 10, Fin 1, []),
          \<lparr>eval_outcome = Malformed, save_succeeds = True, files = []\<rparr>),
       ((None, 10, Fin 1, []), \<lparr>eval_outcome = Malformed, save_succeeds = True, files = []\<rparr>),
       ((None, 10, Fin 1, []), \<lparr>eval_outcome = Malformed, save_succeeds = True, files = []\<rparr>)]
     = ((Evaluator_init ''run'' 0 2 True False 0)\<lparr>total_step := 20\<rparr>,
        [True, False], [[], []], True)
   \<and> (1::nat) < length [True, False] \<and> \<not> [True, False] ! 1
   \<and> Suc 1 = length [True, False]"
proof -
  have h: "evaluator_loop 15 ''run'' (Evaluator_init ''run'' 0 2 True False 0)
      [((None :: nat option, 10, Fin 1, []),
          \<lparr>eval_outcome = Malformed, save_succeeds = True, files = []\<rparr>),
       ((None, 10, Fin 1, []), \<lparr>eval_outcome = Malformed, save_succeeds = True, files = []\<rparr>),
       ((None, 10, Fin 1, []), \<lparr>eval_outcome = Malformed, save_succeeds = True, files = []\<rparr>)]
     = ((Evaluator_init ''run'' 0 2 True False 0)\<lparr>total_step := 20\<rparr>,
        [True, False], [[], []], True)"
    by (simp add: evaluator_cycle_def Evaluator_init_def path_exists_def)
  show ?thesis
    using h continue_flag_false_is_last [OF h] by simp
qed

text \<open>
  C5. A message whose actor is \<open>None\<close> adds its steps to the running total, changes
  nothing else in the evaluator and performs no action at all, so no evaluation episode
  is run. In the scenario, a fresh evaluator receives \<open>(None, 10, ...)\<close> and then
  \<open>(actor, 10, ...)\<close>: the total is 20, the first cycle runs no episode, and the second
  runs the episodes exactly when the recording threshold \<open>eval_record_step\<close> is at
  most 20.
\<close>

theorem null_policy_only_counts:
  "evaluator_cycle b c ev (None, steps, exp_r, lt) w
     = (ev\<lparr>total_step := total_step ev + steps\<rparr>,
        (total_step ev + steps \<le> b \<and> \<not> path_exists w (stop_path c)), [])
   \<and> (let ev0 = Evaluator_init c per_step gap keep over rec_step;
           (ev1, f1, acts1) = evaluator_cycle b c ev0 (None, 10, e1, lt1) w1;
           (ev2, f2, acts2) = evaluator_cycle b c ev1 (Some a, 10, e2, lt2) w2
       in total_step ev2 = 20 \<and> EvalEpisodes \<notin> set acts1
          \<and> (EvalEpisodes \<in> set acts2 \<longleftrightarrow> rec_step \<le> 20))"
proof
  show "evaluator_cycle b c ev (None, steps, exp_r, lt) w
     = (ev\<lparr>total_step := total_step ev + steps\<rparr>,
        (total_step ev + steps \<le> b \<and> \<not> path_exists w (stop_path c)), [])"
    by (simp add: evaluator_cycle_def)
next
  show "let ev0 = Evaluator_init c per_step gap keep over rec_step;
           (ev1, f1, acts1) = evaluator_cycle b c ev0 (None, 10, e1, lt1) w1;
           (ev2, f2, acts2) = evaluator_cycle b c ev1 (Some a, 10, e2, lt2) w2
       in total_step ev2 = 20 \<and> EvalEpisodes \<notin> set acts1
          \<and> (EvalEpisodes \<in> set acts2 \<longleftrightarrow> rec_step \<le> 20)"
    by (cases "stats_of (eval_outcome w2)")
       (auto simp: evaluator_cycle_def Evaluator_init_def evaluate_and_save_def Let_def
          curve_events_def split: if_splits)
qed

lemma fgt_not_NaN: "fgt a b \<Longrightarrow> a \<noteq> NaN \<and> b \<noteq> NaN"
  by (cases a; cases b) auto

lemma fge_refl: "a \<noteq> NaN \<Longrightarrow> fge a a"
  by (cases a) auto

lemma fgt_imp_fge: "fgt a b \<Longrightarrow> fge a b"
  by (cases a; cases b) auto

lemma py_max_fge: "m \<noteq> NaN \<Longrightarrow> fge (py_max m a) m \<and> py_max m a \<noteq> NaN"
  using fgt_not_NaN [of a m] by (auto simp: py_max_def fge_refl fgt_imp_fge)

lemma evaluate_and_save_max_r:
  "max_r (fst (evaluate_and_save ev res ok steps exp_r lt)) = max_r ev
   \<or> max_r (fst (evaluate_and_save ev res ok steps exp_r lt)) = py_max (max_r ev) (fst (stats_of res))"
  by (cases "stats_of res") (simp add: evaluate_and_save_def Let_def)

lemma evaluate_and_save_not_NaN:
  "max_r ev \<noteq> NaN \<Longrightarrow> max_r (fst (evaluate_and_save ev res ok steps exp_r lt)) \<noteq> NaN"
  using evaluate_and_save_max_r [of ev res ok steps exp_r lt] py_max_fge [of "max_r ev"]
  by metis

lemma in_run_not_NaN: "in_run ev \<Longrightarrow> max_r ev \<noteq> NaN"
  by (induction rule: in_run.induct) (simp_all add: Evaluator_init_def evaluate_and_save_not_NaN)

lemma evaluate_and_save_SaveBest:
  "SaveBest d n \<in> set (snd (evaluate_and_save ev res ok steps exp_r lt))
     \<Longrightarrow> fgt (fst (stats_of res)) (max_r ev)"
  by (cases "stats_of res")
     (auto simp: evaluate_and_save_def Let_def curve_events_def split: if_splits)

text \<open>
  C10. For every evaluator a run can reach, a call of \<open>evaluate_and_save\<close> leaves
  \<open>max_r\<close> greater than or equal (Python's \<open>>=\<close>) to its value before the call, and a
  checkpoint is written on the improvement path only when the new average return is
  strictly greater (Python's \<open>>\<close>) than the previous \<open>max_r\<close>.
\<close>

theorem max_r_monotone:
  "in_run ev \<Longrightarrow>
     fge (max_r (fst (evaluate_and_save ev res ok steps exp_r lt))) (max_r ev)
     \<and> (\<forall>d n. SaveBest d n \<in> set (snd (evaluate_and_save ev res ok steps exp_r lt))
            \<longrightarrow> fgt (fst (stats_of res)) (max_r ev))"
proof -
  assume "in_run ev"
  then have nn: "max_r ev \<noteq> NaN" by (rule in_run_not_NaN)
  have "fge (max_r (fst (evaluate_and_save ev res ok steps exp_r lt))) (max_r ev)"
    using evaluate_and_save_max_r [of ev res ok steps exp_r lt] py_max_fge [OF nn] fge_refl [OF nn]
    by metis
  then show ?thesis using evaluate_and_save_SaveBest by blast
qed

text \<open>
  A fresh evaluator that keeps checkpoints: the first evaluation, with average return 3,
  raises \<open>max_r\<close> from minus infinity to 3 and writes the checkpoint of the improvement.
\<close>

theorem max_r_monotone_witness:
  "in_run (Evaluator_init ''run'' 0 2 True False 0)
   \<and> max_r (fst (evaluate_and_save (Evaluator_init ''run'' 0 2 True False 0)
                  (Stats (Fin 3) (Fin 0) (Fin 5) (Fin 0)) True 10 (Fin 1) [])) = Fin 3
   \<and> fge (Fin 3) (max_r (Evaluator_init ''run'' 0 2 True False 0))
   \<and> SaveBest ''run'' (ActorStepMax 10 (Fin 3))
       \<in> set (snd (evaluate_and_save (Evaluator_init ''run'' 0 2 True False 0)
                  (Stats (Fin 3) (Fin 0) (Fin 5) (Fin 0)) True 10 (Fin 1) []))
   \<and> fgt (fst (stats_of (Stats (Fin 3) (Fin 0) (Fin 5) (Fin 0))))
         (max_r (Evaluator_init ''run'' 0 2 True False 0))"
proof -
  have h: "in_run (Evaluator_init ''run'' 0 2 True False 0)" by (rule in_run.init)
  show ?thesis
    using h max_r_monotone [OF h, of "Stats (Fin 3) (Fin 0) (Fin 5) (Fin 0)" True 10 "Fin 1" "[]"]
    by (simp add: Evaluator_init_def evaluate_and_save_def stats_of_def py_max_def Let_def
        curve_events_def recorder_valid_def value_tuple_of_def)
qed

section \<open>Properties of the Worker\<close>



text \<open>
  C9. Every message a Worker sends carries its own \<open>worker_id\<close>. It never sends more
  messages than it received policies before the first \<open>None\<close>, and, unless the external
  \<open>explore_env\<close> raised, it has sent exactly one message for each of them; a \<open>None\<close>
  produces no message and ends the loop. A Worker that is still waiting has not
  received a \<open>None\<close>, and one that left the loop has.
\<close>

theorem worker_one_message_per_policy:
  "worker_loop ex wid h s inputs = (sent, status) \<Longrightarrow>
     (\<forall>m \<in> set sent. fst m = wid)
     \<and> length sent \<le> length (takeWhile (\<lambda>a. a \<noteq> None) inputs)
     \<and> (status \<noteq> Raised \<longrightarrow> length sent = length (takeWhile (\<lambda>a. a \<noteq> None) inputs))
     \<and> (status = Waiting \<longrightarrow> None \<notin> set inputs)
     \<and> (status = Exited 0 \<longrightarrow> None \<in> set inputs)"
proof (induction inputs arbitrary: s sent status)
  case Nil
  then show ?case by simp
next
  case (Cons a inputs)
  show ?case
  proof (cases a)
    case None
    with Cons.prems show ?thesis by auto
  next
    case (Some actor)
    show ?thesis
    proof (cases "ex s actor h")
      case None
      with Cons.prems Some show ?thesis by auto
    next
      case (Some r)
      obtain items ls s' where r: "r = (items, ls, s')" by (cases r)
      obtain sent' st' where rec: "worker_loop ex wid h s' inputs = (sent', st')"
        by (cases "worker_loop ex wid h s' inputs")
      from Cons.prems \<open>a = Some actor\<close> Some r rec
      have eq: "status = st'" "sent = (wid, items, ls) # sent'" by auto
      from Cons.IH [OF rec] eq \<open>a = Some actor\<close> show ?thesis by auto
    qed
  qed
qed

text \<open>
  Worker 3 receives two policies, the sentinel, and one more policy: it sends two
  messages, both with id 3, and exits.
\<close>

theorem worker_one_message_per_policy_witness:
  "worker_loop (\<lambda>s a h. Some (a + s, s, s + h)) 3 4 (0::nat) [Some (1::nat), Some 2, None, Some 5]
     = ([(3, 1, 0), (3, 6, 4)], Exited 0)
   \<and> fst (3::nat, 1::nat, 0::nat) = 3 \<and> fst (3::nat, 6::nat, 4::nat) = 3
   \<and> Exited 0 \<noteq> Raised
   \<and> length [(3::nat, 1::nat, 0::nat), (3, 6, 4)]
       = length (takeWhile (\<lambda>a. a \<noteq> None) [Some (1::nat), Some 2, None, Some 5])
   \<and> None \<in> set [Some (1::nat), Some 2, None, Some 5]"
proof -
  have h: "worker_loop (\<lambda>s a h. Some (a + s, s, s + h)) 3 4 (0::nat)
             [Some (1::nat), Some 2, None, Some 5]
     = ([(3, 1, 0), (3, 6, 4)], Exited 0)"
    by simp
  show ?thesis
    using h worker_one_message_per_policy [OF h] by simp
qed

section \<open>Properties of the gather step of the Learner\<close>

lemma write_cols_fit:
  assumes "item_fits (hi - lo) (shape b) it" "lo \<le> hi" "wide_enough hi (shape b)"
  shows "write_cols b lo hi it = Inr (assign_cols b lo hi it)"
proof -
  from assms(3) obtain s0 s1 rest where s: "shape b = s0 # s1 # rest" "hi \<le> s1"
    by (auto simp: wide_enough_def split: list.splits)
  with assms(1) have it: "shape it = s0 # (hi - lo) # rest"
    by (simp add: item_fits_def)
  from s assms(2) have m: "min hi s1 = hi" "min lo s1 = lo" by auto
  show ?thesis
    by (simp add: write_cols_def cols_shape_def s it m)
qed

lemma write_items_fit:
  assumes "list_all2 (item_fits (hi - lo)) (map shape bs) its" "lo \<le> hi"
    "\<forall>s \<in> set (map shape bs). wide_enough hi s"
  shows "write_items its bs lo hi = Inr (map2 (\<lambda>b it. assign_cols b lo hi it) bs its)"
  using assms
proof (induction its bs lo hi rule: write_items.induct)
  case (1 tensors buf_i buf_j)
  then show ?case by simp
next
  case (2 buffer_item items buf_i buf_j)
  then show ?case by simp
next
  case (3 buffer_item items buffer_tensor tensors buf_i buf_j)
  from "3.prems" have a: "item_fits (buf_j - buf_i) (shape buffer_tensor) buffer_item"
    and b: "list_all2 (item_fits (buf_j - buf_i)) (map shape tensors) items"
    and c: "wide_enough buf_j (shape buffer_tensor)"
    and d: "\<forall>s \<in> set (map shape tensors). wide_enough buf_j s"
    by auto
  have w: "write_cols buffer_tensor buf_i buf_j buffer_item
             = Inr (assign_cols buffer_tensor buf_i buf_j buffer_item)"
    using write_cols_fit [OF a "3.prems"(2) c] .
  have r: "write_items items tensors buf_i buf_j
             = Inr (map2 (\<lambda>b it. assign_cols b buf_i buf_j it) tensors items)"
    using "3.IH" [OF w b "3.prems"(2) d] .
  show ?case by (simp add: w r)
qed


lemma shape_assign_cols [simp]: "shape (assign_cols b lo hi it) = shape b"
  by (simp add: assign_cols_def)

lemma elems_assign_cols [simp]:
  "elems (assign_cols b lo hi it) (h # c # r)
     = (if lo \<le> c \<and> c < hi then elems it (h # (c - lo) # r) else elems b (h # c # r))"
  by (simp add: assign_cols_def)

lemma map_shape_assign:
  "length its = length bs \<Longrightarrow> map shape (map2 (\<lambda>b it. assign_cols b lo hi it) bs its) = map shape bs"
  by (induction bs its rule: list_induct2') auto











text \<open>
  C6 as stated fails. The states tensor of the example has shape (4, 2, 2), so the
  slice of Worker 1 has shape (4, 1, 2). A payload of shape (4, 1, 1) raises nothing:
  its entries are written at last index 0 and the slice keeps the old 0 at last index 1.
  A payload of shape (4, 1) raises nothing either: it is skipped. The whole gather step
  returns with such a message in it.
\<close>

theorem shape_mismatch_raises_counterexample:
  "cols_shape (shape (zeros [4, 2, 2] :: int tensor)) 1 2 = Inr [4, 1, 2]
   \<and> shape (full [4, 1, 1] (7::int)) \<noteq> [4, 1, 2]
   \<and> shape (full [4, 1] (7::int)) \<noteq> [4, 1, 2]
   \<and> (case write_cols (zeros [4, 2, 2]) 1 2 (full [4, 1, 1] (7::int)) of
        Inl e \<Rightarrow> False
      | Inr t \<Rightarrow> shape t = [4, 2, 2] \<and> elems t [0, 1, 0] = 7 \<and> elems t [0, 1, 1] = 0)
   \<and> (case write_cols (zeros [4, 2, 2]) 1 2 (full [4, 1] (7::int)) of
        Inl e \<Rightarrow> False
      | Inr t \<Rightarrow> shape t = [4, 2, 2] \<and> elems t [0, 1, 0] = 0 \<and> elems t [0, 1, 1] = 0)
   \<and> (case gather 2 1 (learner_init example_args (\<lambda>idx. 9::int))
             [(1, [full [4, 1, 1] 7, full [4, 1] 7], full [1, 3] 7),
              (0, example_batch 0, full [1, 2] 0)] of
        Returns (st', rest) \<Rightarrow>
          elems (buffer_items_tensor st' ! 0) [0, 1, 0] = 7
          \<and> elems (buffer_items_tensor st' ! 0) [0, 1, 1] = 0
          \<and> elems (buffer_items_tensor st' ! 1) [0, 1, 0] = 0
      | _ \<Rightarrow> False)"
  by (simp add: write_cols_def cols_shape_def zeros_def full_def assign_cols_def
      assign_cols_trunc_def Let_def example_args_def learner_init_def num_seqs_def num_learners_def
      recv_worker_def write_rows_def rows_shape_def assign_rows_def assign_rows_trunc_def
      example_batch_def numeral_2_eq_2)

text \<open>
  C6, amended. An item whose shape differs from the shape of its target slice raises no
  shape-mismatch error. If it has the rank of the slice, 3 or more, and the same shape
  up to the last dimension, its entries up to the smaller of the two last dimensions
  are written into the slice and every other entry of the buffer tensor keeps its
  previous value. If the rank or a dimension before the last differs, the item is
  skipped and the buffer tensor is unchanged.
\<close>

theorem shape_mismatch_handling:
  assumes "cols_shape (shape b) lo hi = Inr target" "shape it \<noteq> target"
  shows "(3 \<le> length target \<and> length (shape it) = length target
            \<and> butlast (shape it) = butlast target \<longrightarrow>
          (\<exists>t. write_cols b lo hi it = Inr t \<and> shape t = shape b
             \<and> (\<forall>h c r. elems t (h # c # r)
                  = (if min lo (hd (tl (shape b))) \<le> c \<and> c < min hi (hd (tl (shape b)))
                        \<and> r \<noteq> [] \<and> last r < min (last (shape it)) (last target)
                     then elems it (h # (c - min lo (hd (tl (shape b)))) # r)
                     else elems b (h # c # r)))))
       \<and> (\<not> (length (shape it) = length target \<and> butlast (shape it) = butlast target) \<longrightarrow>
            write_cols b lo hi it = Inr b)"
  using assms
  by (auto simp: write_cols_def Let_def assign_cols_trunc_def)

text \<open>
  Both cases on the slice of shape (4, 1, 2): a payload of shape (4, 1, 1) is
  truncated into it, a payload of shape (4, 1) is skipped.
\<close>

theorem shape_mismatch_handling_witness:
  "cols_shape (shape (zeros [4, 2, 2] :: int tensor)) 1 2 = Inr [4, 1, 2]
   \<and> shape (full [4, 1, 1] (7::int)) \<noteq> [4, 1, 2]
   \<and> 3 \<le> length [4::nat, 1, 2] \<and> length (shape (full [4, 1, 1] (7::int))) = length [4::nat, 1, 2]
   \<and> butlast (shape (full [4, 1, 1] (7::int))) = butlast [4, 1, 2]
   \<and> (\<exists>t. write_cols (zeros [4, 2, 2]) 1 2 (full [4, 1, 1] (7::int)) = Inr t
          \<and> elems t [0, 1, 0] = 7 \<and> elems t [0, 1, 1] = 0)
   \<and> cols_shape (shape (zeros [4, 2, 2] :: int tensor)) 1 2 = Inr [4, 1, 2]
   \<and> shape (full [4, 1] (7::int)) \<noteq> [4, 1, 2]
   \<and> \<not> (length (shape (full [4, 1] (7::int))) = length [4::nat, 1, 2]
          \<and> butlast (shape (full [4, 1] (7::int))) = butlast [4, 1, 2])
   \<and> write_cols (zeros [4, 2, 2]) 1 2 (full [4, 1] (7::int)) = Inr (zeros [4, 2, 2])"
proof -
  have h1: "cols_shape (shape (zeros [4, 2, 2] :: int tensor)) 1 2 = Inr [4, 1, 2]"
    by (simp add: cols_shape_def zeros_def)
  have h2: "shape (full [4, 1, 1] (7::int)) \<noteq> [4, 1, 2]" by (simp add: full_def)
  have h3: "shape (full [4, 1] (7::int)) \<noteq> [4, 1, 2]" by (simp add: full_def)
  show ?thesis
    using h1 h2 h3 shape_mismatch_handling [OF h1 h2] shape_mismatch_handling [OF h1 h3]
    by (auto simp: full_def zeros_def)
qed

section \<open>Properties of the exchange between the Learners\<close>

lemma slice_cols_fit:
  assumes "wide_enough n (shape t)"
  shows "\<exists>m. slice_cols t 0 n = Inr m \<and> item_fits n (shape t) m
           \<and> (\<forall>h c x. elems m (h # c # x) = elems t (h # c # x))"
proof -
  from assms obtain s0 s1 rest where s: "shape t = s0 # s1 # rest" "n \<le> s1"
    by (auto simp: wide_enough_def split: list.splits)
  then have "min n s1 = n" by simp
  with s show ?thesis
    by (simp add: slice_cols_def cols_shape_def item_fits_def)
qed

lemma slice_all_fit:
  assumes "\<forall>s \<in> set (map shape ts). wide_enough n s"
  shows "\<exists>m. slice_all ts 0 n = Inr m \<and> list_all2 (item_fits n) (map shape ts) m
           \<and> (\<forall>k < length ts. \<forall>h c x. elems (m ! k) (h # c # x) = elems (ts ! k) (h # c # x))"
  using assms
proof (induction ts)
  case Nil
  then show ?case by simp
next
  case (Cons t ts)
  from Cons.prems have "wide_enough n (shape t)" by simp
  from slice_cols_fit [OF this] obtain m0 where
    m0: "slice_cols t 0 n = Inr m0" "item_fits n (shape t) m0"
        "\<forall>h c x. elems m0 (h # c # x) = elems t (h # c # x)" by blast
  from Cons.prems have "\<forall>s \<in> set (map shape ts). wide_enough n s" by simp
  from Cons.IH [OF this] obtain ms where
    ms: "slice_all ts 0 n = Inr ms" "list_all2 (item_fits n) (map shape ts) ms"
        "\<forall>k < length ts. \<forall>h c x. elems (ms ! k) (h # c # x) = elems (ts ! k) (h # c # x)" by blast
  have "\<forall>k < length (t # ts). \<forall>h c x.
          elems ((m0 # ms) ! k) (h # c # x) = elems ((t # ts) ! k) (h # c # x)"
  proof (intro allI impI)
    fix k h c x assume "k < length (t # ts)"
    then show "elems ((m0 # ms) ! k) (h # c # x) = elems ((t # ts) ! k) (h # c # x)"
      using m0(3) ms(3) by (cases k) auto
  qed
  with m0 ms show ?case by simp
qed

lemma seg_col_bound:
  fixes n :: nat
  assumes "c < n" "j < j'"
  shows "n * j + c < n * j'"
proof -
  from assms(2) have "Suc j \<le> j'" by simp
  then have "n * Suc j \<le> n * j'" by (rule mult_le_mono2)
  with assms(1) show ?thesis by simp
qed

lemma elems_map2_assign:
  assumes "k < length ts" "length m = length ts"
  shows "elems (map2 (\<lambda>b it. assign_cols b lo hi it) ts m ! k) (h # c # x)
     = (if lo \<le> c \<and> c < hi then elems (m ! k) (h # (c - lo) # x) else elems (ts ! k) (h # c # x))"
  using assms by simp

text \<open>The receive of one segment that fits.\<close>

lemma write_segment:
  assumes fit: "list_all2 (item_fits n) (map shape ts) m"
    and wide: "\<forall>s \<in> set (map shape ts). wide_enough (n * (j + 1)) s"
  shows "\<exists>ts'. write_items m ts (n * j) (n * (j + 1)) = Inr ts'
      \<and> map shape ts' = map shape ts
      \<and> (\<forall>k < length ts. \<forall>h c x.
           elems (ts' ! k) (h # c # x)
             = (if n * j \<le> c \<and> c < n * (j + 1) then elems (m ! k) (h # (c - n * j) # x)
                else elems (ts ! k) (h # c # x)))"
proof -
  have e: "n * (j + 1) - n * j = n" by simp
  have len: "length m = length ts" using fit by (auto dest: list_all2_lengthD)
  have w: "write_items m ts (n * j) (n * (j + 1))
             = Inr (map2 (\<lambda>b it. assign_cols b (n * j) (n * (j + 1)) it) ts m)"
    by (rule write_items_fit) (use fit wide e in auto)
  have sh: "map shape (map2 (\<lambda>b it. assign_cols b (n * j) (n * (j + 1)) it) ts m) = map shape ts"
    by (rule map_shape_assign [OF len])
  have el: "\<forall>k < length ts. \<forall>h c x.
           elems (map2 (\<lambda>b it. assign_cols b (n * j) (n * (j + 1)) it) ts m ! k) (h # c # x)
             = (if n * j \<le> c \<and> c < n * (j + 1) then elems (m ! k) (h # (c - n * j) # x)
                else elems (ts ! k) (h # c # x))"
    using elems_map2_assign [OF _ len] by blast
  from w sh el show ?thesis by blast
qed

lemma wide_enough_mono: "n \<le> n' \<Longrightarrow> wide_enough n' s \<Longrightarrow> wide_enough n s"
  by (auto simp: wide_enough_def split: list.splits)

lemma setup_same:
  assumes "ring_setup args bufs" "i < num_learners args"
  shows "map shape (bufs ! i) = map shape (bufs ! 0)"
proof -
  from assms(1) have "\<forall>i < num_learners args. map shape (bufs ! i) = map shape (bufs ! 0)"
    unfolding ring_setup_def by (elim conjE)
  with assms(2) show ?thesis by blast
qed

lemma setup_wide:
  assumes "ring_setup args bufs" "i < num_learners args" "j \<le> num_learners args"
  shows "\<forall>s \<in> set (map shape (bufs ! i)). wide_enough (num_envs args * num_workers args * j) s"
proof
  fix s assume s: "s \<in> set (map shape (bufs ! i))"
  from assms(1) have "\<forall>s \<in> set (map shape (bufs ! 0)). wide_enough (num_seqs args) s"
    unfolding ring_setup_def by (elim conjE)
  with s setup_same [OF assms(1,2)] have w: "wide_enough (num_seqs args) s" by metis
  have "num_envs args * num_workers args * j \<le> num_seqs args"
    unfolding num_seqs_def using assms(3) by (rule mult_le_mono2)
  then show "wide_enough (num_envs args * num_workers args * j) s"
    using w by (rule wide_enough_mono)
qed

lemma setup_shapes:
  assumes "ring_setup args bufs" "i < num_learners args" "p < num_learners args"
  shows "map shape (bufs ! i) = map shape (bufs ! p)" "length (bufs ! i) = length (bufs ! p)"
proof -
  show "map shape (bufs ! i) = map shape (bufs ! p)"
    using setup_same [OF assms(1,2)] setup_same [OF assms(1,3)] by (rule trans [OF _ sym])
  then show "length (bufs ! i) = length (bufs ! p)" by (metis length_map)
qed

lemma ring_invD:
  assumes "ring_inv args bufs r"
  shows "length (ring_pipes r) = num_learners args"
    and "length (ring_pc r) = num_learners args"
    and "length (ring_tensors r) = num_learners args"
    and "\<And>i. i < num_learners args \<Longrightarrow> ring_pc r ! i \<le> num_learners args"
    and "\<And>i. i < num_learners args \<Longrightarrow> map shape (ring_tensors r ! i) = map shape (bufs ! i)"
    and "\<And>i. i < num_learners args \<Longrightarrow> ring_pc r ! i = 0 \<Longrightarrow> ring_tensors r ! i = bufs ! i"
    and "\<And>i k h c x. i < num_learners args \<Longrightarrow> k < length (bufs ! i) \<Longrightarrow>
           c < num_envs args * num_workers args \<Longrightarrow>
           elems (ring_tensors r ! i ! k) (h # c # x) = elems (bufs ! i ! k) (h # c # x)"
    and "\<And>k m. k < num_learners args \<Longrightarrow> m \<in> set (ring_pipes r ! k) \<Longrightarrow>
           slice_all (bufs ! k) 0 (num_envs args * num_workers args) = Inr m"
    and "\<And>i j k h c x. i < num_learners args \<Longrightarrow> 0 < j \<Longrightarrow> j < ring_pc r ! i \<Longrightarrow>
           k < length (bufs ! i) \<Longrightarrow> c < num_envs args * num_workers args \<Longrightarrow>
           elems (ring_tensors r ! i ! k) (h # (num_envs args * num_workers args * j + c) # x)
             = elems (bufs ! ((i + j) mod num_learners args) ! k) (h # c # x)"
  using assms by (simp_all add: ring_inv_def)

lemma ring_invI:
  assumes "length (ring_pipes r) = num_learners args"
    and "length (ring_pc r) = num_learners args"
    and "length (ring_tensors r) = num_learners args"
    and "\<And>i. i < num_learners args \<Longrightarrow> ring_pc r ! i \<le> num_learners args"
    and "\<And>i. i < num_learners args \<Longrightarrow> map shape (ring_tensors r ! i) = map shape (bufs ! i)"
    and "\<And>i. i < num_learners args \<Longrightarrow> ring_pc r ! i = 0 \<Longrightarrow> ring_tensors r ! i = bufs ! i"
    and "\<And>i k h c x. i < num_learners args \<Longrightarrow> k < length (bufs ! i) \<Longrightarrow>
           c < num_envs args * num_workers args \<Longrightarrow>
           elems (ring_tensors r ! i ! k) (h # c # x) = elems (bufs ! i ! k) (h # c # x)"
    and "\<And>k m. k < num_learners args \<Longrightarrow> m \<in> set (ring_pipes r ! k) \<Longrightarrow>
           slice_all (bufs ! k) 0 (num_envs args * num_workers args) = Inr m"
    and "\<And>i j k h c x. i < num_learners args \<Longrightarrow> 0 < j \<Longrightarrow> j < ring_pc r ! i \<Longrightarrow>
           k < length (bufs ! i) \<Longrightarrow> c < num_envs args * num_workers args \<Longrightarrow>
           elems (ring_tensors r ! i ! k) (h # (num_envs args * num_workers args * j + c) # x)
             = elems (bufs ! ((i + j) mod num_learners args) ! k) (h # c # x)"
  shows "ring_inv args bufs r"
  unfolding ring_inv_def by (intro conjI allI impI ballI) (use assms in \<open>simp_all (no_asm_simp)\<close>)

lemma ring_step_send:
  assumes stp: "ring_setup args bufs" and inv: "ring_inv args bufs r"
    and i: "i < num_learners args" and pc: "ring_pc r ! i = 0"
  shows "\<exists>r' m. ring_step args i r = Returns r' \<and> ring_inv args bufs r'
           \<and> ring_pc r' = (ring_pc r)[i := 1]
           \<and> ring_pipes r' = (ring_pipes r)[i := ring_pipes r ! i
                                  @ replicate (num_communications args) m]"
proof -
  let ?L = "num_learners args" and ?WE = "num_envs args * num_workers args"
  note D = ring_invD [OF inv]
  from stp have L2: "2 \<le> ?L" by (simp add: ring_setup_def)
  then have nc: "num_communications args \<noteq> 0" by (simp add: num_communications_def)
  have own: "ring_tensors r ! i = bufs ! i" using D(6) [OF i pc] .
  have "\<forall>s \<in> set (map shape (bufs ! i)). wide_enough (?WE * 1) s"
    by (rule setup_wide [OF stp i]) (use L2 in simp)
  then have "\<forall>s \<in> set (map shape (bufs ! i)). wide_enough ?WE s" by simp
  from slice_all_fit [OF this] obtain m where m: "slice_all (bufs ! i) 0 ?WE = Inr m" by blast
  define r' where "r' = r\<lparr>ring_pipes := (ring_pipes r)[i := ring_pipes r ! i
                                  @ replicate (num_communications args) m],
                          ring_pc := (ring_pc r)[i := 1]\<rparr>"
  have ilen: "i < length (ring_pc r)" "i < length (ring_pipes r)" using i D(1,2) by simp_all
  have cs: "comm_send args i (ring_tensors r ! i) (ring_pipes r)
              = Inr ((ring_pipes r)[i := ring_pipes r ! i @ replicate (num_communications args) m])"
    unfolding comm_send_def own m using nc ilen by simp
  have step: "ring_step args i r = Returns r'"
    unfolding ring_step_def cs r'_def using ilen pc by simp
  have r'_simps: "ring_pc r' = (ring_pc r)[i := 1]" "ring_tensors r' = ring_tensors r"
    "ring_pipes r' = (ring_pipes r)[i := ring_pipes r ! i @ replicate (num_communications args) m]"
    by (simp_all add: r'_def)
  have pcs: "\<And>i'. i' < ?L \<Longrightarrow> ring_pc r' ! i' = (if i' = i then 1 else ring_pc r ! i')"
    using D(2) by (simp add: r'_simps nth_list_update)
  have inv': "ring_inv args bufs r'"
  proof (rule ring_invI)
    show "length (ring_pipes r') = ?L" "length (ring_pc r') = ?L" "length (ring_tensors r') = ?L"
      using D(1,2,3) by (simp_all add: r'_simps)
    show "ring_pc r' ! i' \<le> ?L" if "i' < ?L" for i'
      using D(4) [OF that] L2 pcs [OF that] by simp
    show "map shape (ring_tensors r' ! i') = map shape (bufs ! i')" if "i' < ?L" for i'
      using D(5) [OF that] by (simp add: r'_simps)
    show "ring_tensors r' ! i' = bufs ! i'" if "i' < ?L" "ring_pc r' ! i' = 0" for i'
    proof -
      from that pcs [OF that(1)] have "i' \<noteq> i" "ring_pc r ! i' = 0" by (auto split: if_splits)
      with D(6) [OF that(1)] show ?thesis by (simp add: r'_simps)
    qed
    show "elems (ring_tensors r' ! i' ! k) (h # c # x) = elems (bufs ! i' ! k) (h # c # x)"
      if "i' < ?L" "k < length (bufs ! i')" "c < ?WE" for i' k h c x
      using D(7) [OF that] by (simp add: r'_simps)
    show "slice_all (bufs ! k) 0 ?WE = Inr m'"
      if k: "k < ?L" and m': "m' \<in> set (ring_pipes r' ! k)" for k m'
    proof (cases "k = i")
      case True
      with m' ilen have "m' \<in> set (ring_pipes r ! i) \<or> m' = m"
        by (auto simp: r'_simps)
      with D(8) [OF i] m True show ?thesis by auto
    next
      case False
      with m' have "m' \<in> set (ring_pipes r ! k)" by (simp add: r'_simps)
      with D(8) [OF k] show ?thesis by simp
    qed
    show "elems (ring_tensors r' ! i' ! k) (h # (?WE * j + c) # x)
              = elems (bufs ! ((i' + j) mod ?L) ! k) (h # c # x)"
      if i': "i' < ?L" and j: "0 < j" "j < ring_pc r' ! i'"
        and k: "k < length (bufs ! i')" and c: "c < ?WE" for i' j k h c x
    proof -
      from j pcs [OF i'] have "i' \<noteq> i" by (auto split: if_splits)
      with j pcs [OF i'] have "j < ring_pc r ! i'" by simp
      from D(9) [OF i' j(1) this k c] show ?thesis by (simp add: r'_simps)
    qed
  qed
  show ?thesis
    by (intro exI [of _ r'] exI [of _ m] conjI) (rule step inv' r'_simps(1) r'_simps(3))+
qed

lemma ring_step_recv:
  assumes stp: "ring_setup args bufs" and inv: "ring_inv args bufs r"
    and i: "i < num_learners args"
    and pc0: "0 < ring_pc r ! i" and pc1: "ring_pc r ! i \<le> num_communications args"
  shows "(ring_pipes r ! ((i + ring_pc r ! i) mod num_learners args) = []
            \<and> ring_step args i r = Blocks)
       \<or> (\<exists>r' m q. ring_pipes r ! ((i + ring_pc r ! i) mod num_learners args) = m # q
            \<and> ring_step args i r = Returns r' \<and> ring_inv args bufs r'
            \<and> ring_pc r' = (ring_pc r)[i := ring_pc r ! i + 1]
            \<and> ring_pipes r' = (ring_pipes r)[(i + ring_pc r ! i) mod num_learners args := q])"
proof -
  let ?L = "num_learners args" and ?WE = "num_envs args * num_workers args"
  define j0 where "j0 = ring_pc r ! i"
  define p where "p = (i + j0) mod ?L"
  define ts where "ts = ring_tensors r ! i"
  note D = ring_invD [OF inv]
  from stp have L2: "2 \<le> ?L" unfolding ring_setup_def by (elim conjE)
  have j0: "0 < j0" "j0 + 1 \<le> ?L" "j0 \<le> num_communications args"
    using pc0 pc1 L2 by (simp_all add: j0_def num_communications_def)
  have p: "p < ?L" using L2 by (simp add: p_def)
  have ilen: "i < length (ring_pc r)" "p < length (ring_pipes r)" "i < length (ring_tensors r)"
    using i p D(1,2,3) by simp_all
  have sj: "j0 - 1 + 1 = j0" "j0 - 1 + 2 = j0 + 1" using j0(1) by simp_all
  have pcne: "ring_pc r ! i \<noteq> 0" using pc0 by simp
  have other: "(i + (j0 - 1) + 1) mod ?L = p" using j0(1) by (simp add: p_def)
  show ?thesis
  proof (cases "ring_pipes r ! p")
    case Nil
    have "comm_recv_step args i (j0 - 1) ts (ring_pipes r) = Blocks"
      unfolding comm_recv_step_def Let_def other using ilen(2) Nil by simp
    then have "ring_step args i r = Blocks"
      unfolding ring_step_def using ilen(1) pcne pc1 by (simp add: j0_def ts_def)
    with Nil show ?thesis by (simp add: p_def j0_def)
  next
    case (Cons m q)
    then have "m \<in> set (ring_pipes r ! p)" by simp
    from D(8) [OF p this] have sl: "slice_all (bufs ! p) 0 ?WE = Inr m" .
    have "\<forall>s \<in> set (map shape (bufs ! p)). wide_enough (?WE * 1) s"
      by (rule setup_wide [OF stp p]) (use L2 in simp)
    then have "\<forall>s \<in> set (map shape (bufs ! p)). wide_enough ?WE s" by simp
    from slice_all_fit [OF this] sl have
      fitp: "list_all2 (item_fits ?WE) (map shape (bufs ! p)) m"
      and elm: "\<forall>k < length (bufs ! p). \<forall>h c x.
                  elems (m ! k) (h # c # x) = elems (bufs ! p ! k) (h # c # x)"
      by auto
    have shts: "map shape ts = map shape (bufs ! i)" unfolding ts_def by (rule D(5) [OF i])
    have shp: "map shape (bufs ! i) = map shape (bufs ! p)" "length (bufs ! i) = length (bufs ! p)"
      by (rule setup_shapes [OF stp i p])+
    have lents: "length ts = length (bufs ! i)" using shts by (metis length_map)
    have fit: "list_all2 (item_fits ?WE) (map shape ts) m"
      using fitp by (simp only: shts shp(1))
    have wide: "\<forall>s \<in> set (map shape ts). wide_enough (?WE * (j0 + 1)) s"
      unfolding shts by (rule setup_wide [OF stp i j0(2)])
    from write_segment [OF fit wide] obtain ts' where
      w: "write_items m ts (?WE * j0) (?WE * (j0 + 1)) = Inr ts'"
      and sh': "map shape ts' = map shape ts"
      and el': "\<forall>k < length ts. \<forall>h c x.
           elems (ts' ! k) (h # c # x)
             = (if ?WE * j0 \<le> c \<and> c < ?WE * (j0 + 1) then elems (m ! k) (h # (c - ?WE * j0) # x)
                else elems (ts ! k) (h # c # x))"
      by blast
    define r' where "r' = r\<lparr>ring_pipes := (ring_pipes r)[p := q],
                            ring_tensors := (ring_tensors r)[i := ts'],
                            ring_pc := (ring_pc r)[i := j0 + 1]\<rparr>"
    have crs: "comm_recv_step args i (j0 - 1) ts (ring_pipes r)
                 = Returns (ts', (ring_pipes r)[p := q])"
      unfolding comm_recv_step_def Let_def other sj using ilen(2) Cons w by simp
    have step: "ring_step args i r = Returns r'"
      unfolding ring_step_def using ilen(1) pcne pc1 crs
      by (simp add: j0_def [symmetric] ts_def [symmetric] r'_def)
    have r'_simps: "ring_pc r' = (ring_pc r)[i := j0 + 1]"
      "ring_tensors r' = (ring_tensors r)[i := ts']"
      "ring_pipes r' = (ring_pipes r)[p := q]"
      by (simp_all add: r'_def)
    have pcs: "\<And>i'. i' < ?L \<Longrightarrow> ring_pc r' ! i' = (if i' = i then j0 + 1 else ring_pc r ! i')"
      using D(2) by (simp add: r'_simps nth_list_update)
    have tss: "\<And>i'. i' < ?L \<Longrightarrow> ring_tensors r' ! i' = (if i' = i then ts' else ring_tensors r ! i')"
      using D(3) by (simp add: r'_simps nth_list_update)
    have keep: "elems (ts' ! k) (h # c # x) = elems (ts ! k) (h # c # x)"
      if "k < length ts" "c < ?WE * j0" for k h c x
      using el' that by simp
    have new: "elems (ts' ! k) (h # (?WE * j0 + c) # x) = elems (bufs ! p ! k) (h # c # x)"
      if "k < length ts" "c < ?WE" for k h c x
    proof -
      have "elems (ts' ! k) (h # (?WE * j0 + c) # x) = elems (m ! k) (h # c # x)"
        using el' that by simp
      also have "\<dots> = elems (bufs ! p ! k) (h # c # x)"
        using elm that(1) lents shp(2) by simp
      finally show ?thesis .
    qed
    have inv': "ring_inv args bufs r'"
    proof (rule ring_invI)
      show "length (ring_pipes r') = ?L" "length (ring_pc r') = ?L" "length (ring_tensors r') = ?L"
        using D(1,2,3) by (simp_all add: r'_simps)
      show "ring_pc r' ! i' \<le> ?L" if "i' < ?L" for i'
        using D(4) [OF that] j0(2) pcs [OF that] by simp
      show "map shape (ring_tensors r' ! i') = map shape (bufs ! i')" if "i' < ?L" for i'
        using D(5) [OF that] sh' shts tss [OF that] by simp
      show "ring_tensors r' ! i' = bufs ! i'" if "i' < ?L" "ring_pc r' ! i' = 0" for i'
      proof -
        from that(2) pcs [OF that(1)] have ne: "i' \<noteq> i" by (auto split: if_splits)
        with that(2) pcs [OF that(1)] have "ring_pc r ! i' = 0" by simp
        from D(6) [OF that(1) this] ne tss [OF that(1)] show ?thesis by simp
      qed
      show "elems (ring_tensors r' ! i' ! k) (h # c # x) = elems (bufs ! i' ! k) (h # c # x)"
        if a: "i' < ?L" "k < length (bufs ! i')" "c < ?WE" for i' k h c x
      proof (cases "i' = i")
        case True
        have "c < ?WE * j0" using seg_col_bound [OF a(3) j0(1)] by simp
        with keep [of k c h x] a(2) True lents
        have "elems (ts' ! k) (h # c # x) = elems (ts ! k) (h # c # x)" by simp
        also have "\<dots> = elems (bufs ! i ! k) (h # c # x)"
          using D(7) [OF i _ a(3), of k h x] a(2) True by (simp add: ts_def)
        finally show ?thesis using True tss [OF a(1)] by simp
      next
        case False
        with D(7) [OF a] tss [OF a(1)] show ?thesis by simp
      qed
      show "slice_all (bufs ! k) 0 ?WE = Inr m'"
        if k: "k < ?L" and m': "m' \<in> set (ring_pipes r' ! k)" for k m'
      proof (cases "k = p")
        case True
        with m' ilen(2) have "m' \<in> set q" by (simp add: r'_simps)
        with Cons have "m' \<in> set (ring_pipes r ! p)" by simp
        from D(8) [OF p this] True show ?thesis by simp
      next
        case False
        with m' have "m' \<in> set (ring_pipes r ! k)" by (simp add: r'_simps)
        from D(8) [OF k this] show ?thesis .
      qed
      show "elems (ring_tensors r' ! i' ! k) (h # (?WE * j + c) # x)
              = elems (bufs ! ((i' + j) mod ?L) ! k) (h # c # x)"
        if i': "i' < ?L" and j: "0 < j" "j < ring_pc r' ! i'"
          and k: "k < length (bufs ! i')" and c: "c < ?WE" for i' j k h c x
      proof (cases "i' = i")
        case False
        with j pcs [OF i'] have "j < ring_pc r ! i'" by simp
        from D(9) [OF i' j(1) this k c] False tss [OF i'] show ?thesis by simp
      next
        case True
        with j pcs [OF i'] have jle: "j \<le> j0" by simp
        have kt: "k < length ts" using k True lents by simp
        show ?thesis
        proof (cases "j = j0")
          case True
          from new [OF kt c, of h x] have
            "elems (ts' ! k) (h # (?WE * j + c) # x) = elems (bufs ! p ! k) (h # c # x)"
            using True by simp
          then show ?thesis using \<open>i' = i\<close> True tss [OF i'] by (simp add: p_def)
        next
          case False
          with jle have jl: "j < j0" by simp
          then have "?WE * j + c < ?WE * j0" using c by (intro seg_col_bound)
          from keep [OF kt this, of h x] have
            "elems (ts' ! k) (h # (?WE * j + c) # x) = elems (ts ! k) (h # (?WE * j + c) # x)" .
          also have "\<dots> = elems (bufs ! ((i + j) mod ?L) ! k) (h # c # x)"
            using D(9) [OF i j(1) _ _ c, of k h x] jl k \<open>i' = i\<close> by (simp add: ts_def j0_def)
          finally show ?thesis using \<open>i' = i\<close> tss [OF i'] by simp
        qed
      qed
    qed
    have "\<exists>r' m q. ring_pipes r ! p = m # q
            \<and> ring_step args i r = Returns r' \<and> ring_inv args bufs r'
            \<and> ring_pc r' = (ring_pc r)[i := j0 + 1]
            \<and> ring_pipes r' = (ring_pipes r)[p := q]"
      by (intro exI [of _ r'] exI [of _ m] exI [of _ q] conjI)
         (rule Cons step inv' r'_simps(1) r'_simps(3))+
    then show ?thesis unfolding p_def j0_def by (rule disjI2)
  qed
qed





lemma ring_step_inv:
  assumes stp: "ring_setup args bufs" and inv: "ring_inv args bufs r"
  shows "ring_step args i r = Blocks
       \<or> (\<exists>r'. ring_step args i r = Returns r' \<and> ring_inv args bufs r')"
proof -
  note D = ring_invD [OF inv]
  consider "\<not> i < num_learners args"
    | "i < num_learners args" "ring_pc r ! i = 0"
    | "i < num_learners args" "0 < ring_pc r ! i" "ring_pc r ! i \<le> num_communications args"
    | "i < num_learners args" "\<not> ring_pc r ! i \<le> num_communications args"
    by linarith
  then show ?thesis
  proof cases
    case 1
    then have "ring_step args i r = Returns r" by (simp add: ring_step_def D(2))
    with inv show ?thesis by blast
  next
    case 2
    from ring_step_send [OF stp inv 2] show ?thesis by blast
  next
    case 3
    from ring_step_recv [OF stp inv 3] show ?thesis by blast
  next
    case 4
    then have "ring_step args i r = Returns r" by (simp add: ring_step_def D(2))
    with inv show ?thesis by blast
  qed
qed

lemma ring_run_inv:
  assumes stp: "ring_setup args bufs" and inv: "ring_inv args bufs r"
  shows "\<exists>r'. ring_run args schedule r = Inr r' \<and> ring_inv args bufs r'"
  using inv
proof (induction schedule arbitrary: r)
  case Nil
  then show ?case by simp
next
  case (Cons i schedule)
  from ring_step_inv [OF stp Cons.prems, of i] show ?case
  proof
    assume "ring_step args i r = Blocks"
    with Cons.IH [OF Cons.prems] show ?thesis by simp
  next
    assume "\<exists>r'. ring_step args i r = Returns r' \<and> ring_inv args bufs r'"
    then obtain r1 where r1: "ring_step args i r = Returns r1" "ring_inv args bufs r1" by blast
    from Cons.IH [OF r1(2)] r1(1) show ?thesis by simp
  qed
qed
















section \<open>Properties of a whole round of the Learner\<close>





end
